theory Spec2Isabelle
  imports Main
begin

unbundle bit_operations_syntax

section \<open>Data model of \<^verbatim>\<open>app_rsa.py\<close>\<close>

text \<open>
  Python integers are unbounded: they are \<open>int\<close>. A Python \<open>str\<close> is a sequence of
  Unicode code points; a character is represented by its code point, so \<open>ord\<close> reads it.
  \<open>chr\<close> first converts its argument to a C \<open>int\<close>, which raises \<open>OverflowError\<close>
  below \<open>- 2 ^ 31\<close> and from \<open>2 ^ 31\<close> on, and then checks \<open>range(0x110000)\<close>, outside
  of which it raises \<open>ValueError\<close>. Floor division \<open>//\<close> and \<open>%\<close> of Python agree with \<open>div\<close> and
  \<open>mod\<close> on \<open>int\<close> (the remainder has the sign of the divisor).
\<close>

datatype error = ValueError | ZeroDivisionError | OverflowError

type_synonym pychar = int
type_synonym pystr = "pychar list"
type_synonym key = "int \<times> int"

definition valid_str :: "pystr \<Rightarrow> bool" where
  "valid_str s = list_all (\<lambda>c. 0 \<le> c \<and> c < 1114112) s"

definition ord :: "pychar \<Rightarrow> int" where
  "ord c = c"

definition chr :: "int \<Rightarrow> error + pychar" where
  "chr i =
     (if i < - 2147483648 \<or> 2147483647 < i then Inl OverflowError
      else if 0 \<le> i \<and> i < 1114112 then Inr i
      else Inl ValueError)"

subsection \<open>The built-in three-argument \<^verbatim>\<open>pow\<close>\<close>

text \<open>
  \<open>pow_mod b e m\<close> is \<^verbatim>\<open>pow(b, e, m)\<close> for an exponent \<open>e \<ge> 0\<close> and a modulus
  \<open>m \<noteq> 0\<close>. \<open>py_pow\<close> adds what the built-in does elsewhere (CPython 3.8 and later):
  a zero modulus raises \<open>ValueError\<close>, a modulus of absolute value 1 gives 0, and a
  negative exponent replaces the base by its inverse modulo \<open>\<bar>m\<bar>\<close>, raising
  \<open>ValueError\<close> when the base is not invertible.
\<close>

definition pow_mod :: "int \<Rightarrow> int \<Rightarrow> int \<Rightarrow> int" where
  "pow_mod b e m = b ^ nat e mod m"

definition invmod :: "int \<Rightarrow> int \<Rightarrow> int option" where
  "invmod b c = find (\<lambda>x. (b * x) mod c = 1) (map int [0..<nat c])"

definition py_pow :: "int \<Rightarrow> int \<Rightarrow> int \<Rightarrow> error + int" where
  "py_pow b e m =
     (if m = 0 then Inl ValueError
      else if \<bar>m\<bar> = 1 then Inr 0
      else if e < 0 then
        (case invmod b \<bar>m\<bar> of
           None \<Rightarrow> Inl ValueError
         | Some i \<Rightarrow> Inr (pow_mod i (- e) m))
      else Inr (pow_mod b e m))"

section \<open>Encryption and decryption\<close>

text \<open>
  \<^verbatim>\<open>encrypt\<close>: the loop over the plaintext appends to \<open>encrypted_msg_chars\<close>; a
  character whose code is not below \<open>n\<close> makes the function return the empty list at
  once (\<^verbatim>\<open>return []\<close>), which is a normal return, not an exception.
\<close>

fun encrypt_loop :: "int \<Rightarrow> int \<Rightarrow> pystr \<Rightarrow> int list \<Rightarrow> error + int list" where
  "encrypt_loop n e [] encrypted_msg_chars = Inr encrypted_msg_chars"
| "encrypt_loop n e (char # plaintext) encrypted_msg_chars =
     (let char_as_int = ord char in
      if char_as_int \<ge> n then Inr []
      else (case py_pow char_as_int e n of
              Inl err \<Rightarrow> Inl err
            | Inr encrypted_char \<Rightarrow>
                encrypt_loop n e plaintext (encrypted_msg_chars @ [encrypted_char])))"

fun encrypt :: "key \<Rightarrow> pystr \<Rightarrow> error + int list" where
  "encrypt (n, e) plaintext = encrypt_loop n e plaintext []"

text \<open>
  \<^verbatim>\<open>decrypt\<close>: each value is raised to \<open>d\<close> modulo \<open>n\<close> and turned into a character
  by \<open>chr\<close>; the characters are joined in order.
\<close>

fun decrypt_loop :: "int \<Rightarrow> int \<Rightarrow> int list \<Rightarrow> pystr \<Rightarrow> error + pystr" where
  "decrypt_loop n d [] decrypted_chars = Inr decrypted_chars"
| "decrypt_loop n d (char_code # ciphertext) decrypted_chars =
     (case py_pow char_code d n of
        Inl err \<Rightarrow> Inl err
      | Inr decrypted_char_int \<Rightarrow>
          (case chr decrypted_char_int of
             Inl err \<Rightarrow> Inl err
           | Inr c \<Rightarrow> decrypt_loop n d ciphertext (decrypted_chars @ [c])))"

fun decrypt :: "key \<Rightarrow> int list \<Rightarrow> error + pystr" where
  "decrypt (n, d) ciphertext = decrypt_loop n d ciphertext []"

text \<open>
  The caller of \<^verbatim>\<open>encrypt\<close> in the presentation layer (the "Encrypt Message" button):
  it tests the returned list for emptiness, stores a non-empty list in the session and
  reports success, and reports a failure otherwise, leaving the stored list as it was.
\<close>

datatype report = Encrypted_successfully | Encryption_failed

definition encrypt_button :: "key \<Rightarrow> pystr \<Rightarrow> int list \<Rightarrow> error + int list \<times> report" where
  "encrypt_button public_key message_to_encrypt encrypted_msg =
     (case encrypt public_key message_to_encrypt of
        Inl err \<Rightarrow> Inl err
      | Inr encrypted_data \<Rightarrow>
          if encrypted_data \<noteq> [] then Inr (encrypted_data, Encrypted_successfully)
          else Inr (encrypted_msg, Encryption_failed))"

section \<open>Randomness\<close>

text \<open>
  The calls of the \<^verbatim>\<open>random\<close> module are modelled over a tape of draws that is passed
  through the program: each call consumes one entry and returns the rest. An entry
  \<open>r\<close> selects the value of the call: \<^verbatim>\<open>getrandbits(k)\<close> returns \<open>r mod 2 ^ k\<close>,
  some integer of \<open>[0, 2 ^ k)\<close>, and \<^verbatim>\<open>randint(a, b)\<close> returns \<open>a + r mod (b - a + 1)\<close>,
  some integer of \<open>[a, b]\<close>; every value of the range is selected by some entry.
  A computation that needs more draws than the tape holds has the value \<open>None\<close>: the
  retry loops of the program end only on draws that let them end. \<open>Some (Inl err)\<close>
  is a raised exception, \<open>Some (Inr (v, rs))\<close> the returned value and the rest of the
  tape. \<^verbatim>\<open>randint\<close> raises \<open>ValueError\<close> on an empty range.
\<close>

type_synonym tape = "nat list"
type_synonym 'a run = "(error + 'a \<times> tape) option"

definition getrandbits :: "int \<Rightarrow> tape \<Rightarrow> int run" where
  "getrandbits k rs =
     (if k < 0 then Some (Inl ValueError)
      else (case rs of [] \<Rightarrow> None | r # rs' \<Rightarrow> Some (Inr (int r mod 2 ^ nat k, rs'))))"

definition randint :: "int \<Rightarrow> int \<Rightarrow> tape \<Rightarrow> int run" where
  "randint a b rs =
     (if b < a then Some (Inl ValueError)
      else (case rs of [] \<Rightarrow> None | r # rs' \<Rightarrow> Some (Inr (a + int r mod (b - a + 1), rs'))))"

section \<open>Primality test\<close>

text \<open>
  The loop \<^verbatim>\<open>while d % 2 == 0: s += 1; d //= 2\<close> of \<^verbatim>\<open>is_prime\<close>. It is entered with
  \<open>d = n - 1 \<ge> 4\<close>; at \<open>d = 0\<close> the Python loop would not end, which the guard
  \<open>d \<noteq> 0\<close> keeps out of the function.
\<close>

function factor_twos :: "int \<Rightarrow> int \<Rightarrow> int \<times> int" where
  "factor_twos s d = (if d \<noteq> 0 \<and> d mod 2 = 0 then factor_twos (s + 1) (d div 2) else (s, d))"
  by pat_completeness auto
termination
  by (relation "measure (\<lambda>(s, d). nat \<bar>d\<bar>)") auto

declare factor_twos.simps [simp del]

text \<open>
  The inner loop \<^verbatim>\<open>for _ in range(s - 1)\<close> with its \<^verbatim>\<open>else\<close> branch: \<open>True\<close> when
  the loop left by \<^verbatim>\<open>break\<close> (some square was \<open>n - 1\<close>), \<open>False\<close> when it ran out
  (the \<^verbatim>\<open>else\<close> branch, which returns \<open>False\<close> from \<^verbatim>\<open>is_prime\<close>).
\<close>

fun squarings :: "int \<Rightarrow> int \<Rightarrow> nat \<Rightarrow> bool" where
  "squarings n x 0 = False"
| "squarings n x (Suc i) =
     (let x' = pow_mod x 2 n in
      if x' = n - 1 then True else squarings n x' i)"

text \<open>The loop \<^verbatim>\<open>for _ in range(k)\<close>: one witness is drawn in each round.\<close>

fun witness_rounds :: "int \<Rightarrow> int \<Rightarrow> int \<Rightarrow> nat \<Rightarrow> tape \<Rightarrow> bool run" where
  "witness_rounds n s d 0 rs = Some (Inr (True, rs))"
| "witness_rounds n s d (Suc i) rs =
     (case randint 2 (n - 2) rs of
        None \<Rightarrow> None
      | Some (Inl err) \<Rightarrow> Some (Inl err)
      | Some (Inr (a, rs')) \<Rightarrow>
          (let x = pow_mod a d n in
           if x = 1 \<or> x = n - 1 then witness_rounds n s d i rs'
           else if squarings n x (nat (s - 1)) then witness_rounds n s d i rs'
           else Some (Inr (False, rs'))))"

definition is_prime :: "int \<Rightarrow> int \<Rightarrow> tape \<Rightarrow> bool run" where
  "is_prime n k rs =
     (if n \<le> 1 \<or> n = 4 then Some (Inr (False, rs))
      else if n \<le> 3 then Some (Inr (True, rs))
      else if n mod 2 = 0 then Some (Inr (False, rs))
      else (case factor_twos 0 (n - 1) of (s, d) \<Rightarrow> witness_rounds n s d (nat k) rs))"

section \<open>Prime generation\<close>

text \<open>\<^verbatim>\<open>a << k\<close>: a negative shift count raises \<open>ValueError\<close>.\<close>

definition lshift :: "int \<Rightarrow> int \<Rightarrow> error + int" where
  "lshift a k = (if k < 0 then Inl ValueError else Inr (push_bit (nat k) a))"

text \<open>The primality test returns a suffix of the tape, so the retry loops below end.\<close>

lemma witness_rounds_tape:
  "witness_rounds n s d k rs = Some (Inr (b, rs')) \<Longrightarrow> length rs' \<le> length rs"
  by (induction k arbitrary: rs)
     (auto simp: randint_def Let_def split: if_splits list.splits intro: le_SucI)

lemma is_prime_tape:
  "is_prime n k rs = Some (Inr (b, rs')) \<Longrightarrow> length rs' \<le> length rs"
  by (auto simp: is_prime_def split: if_splits prod.splits dest: witness_rounds_tape)

text \<open>
  \<^verbatim>\<open>generate_prime\<close>: \<^verbatim>\<open>while True\<close> draws \<open>bits\<close> random bits, sets the top and the
  bottom bit (\<^verbatim>\<open>p |= (1 << bits - 1) | 1\<close>) and returns the candidate if \<^verbatim>\<open>is_prime(p)\<close>
  (with the default \<open>k = 5\<close>) accepts it.
\<close>

function generate_prime :: "int \<Rightarrow> tape \<Rightarrow> int run" where
  "generate_prime bits rs =
     (case getrandbits bits rs of
        None \<Rightarrow> None
      | Some (Inl err) \<Rightarrow> Some (Inl err)
      | Some (Inr (p0, rs1)) \<Rightarrow>
          (case lshift 1 (bits - 1) of
             Inl err \<Rightarrow> Some (Inl err)
           | Inr msb \<Rightarrow>
               (let p = p0 OR (msb OR 1) in
                case is_prime p 5 rs1 of
                  None \<Rightarrow> None
                | Some (Inl err) \<Rightarrow> Some (Inl err)
                | Some (Inr (b, rs2)) \<Rightarrow>
                    if b then Some (Inr (p, rs2)) else generate_prime bits rs2)))"
  by pat_completeness auto
termination
  by (relation "measure (\<lambda>(bits, rs). length rs)")
     (auto simp: getrandbits_def split: if_splits list.splits dest!: is_prime_tape)

declare generate_prime.simps [simp del]

lemma getrandbits_tape:
  "getrandbits k rs = Some (Inr (v, rs')) \<Longrightarrow> length rs = Suc (length rs')"
  by (auto simp: getrandbits_def split: if_splits list.splits)

lemma generate_prime_tape:
  "generate_prime bits rs = Some (Inr (p, rs')) \<Longrightarrow> length rs' < length rs"
proof (induction bits rs rule: generate_prime.induct)
  case (1 bits rs)
  from "1.prems" obtain p0 rs1 msb b rs2 where
    g: "getrandbits bits rs = Some (Inr (p0, rs1))" and
    l: "lshift 1 (bits - 1) = Inr msb" and
    i: "is_prime (p0 OR (msb OR 1)) 5 rs1 = Some (Inr (b, rs2))" and
    r: "if b then rs' = rs2 else generate_prime bits rs2 = Some (Inr (p, rs'))"
    by (subst (asm) generate_prime.simps)
       (simp add: Let_def split: option.splits sum.splits prod.splits if_splits)
  have len: "length rs2 < length rs"
    using getrandbits_tape [OF g] is_prime_tape [OF i] by simp
  show ?case
  proof (cases b)
    case True
    with r len show ?thesis by simp
  next
    case False
    with r have "generate_prime bits rs2 = Some (Inr (p, rs'))" by simp
    with "1.IH" [OF g refl refl l refl i refl refl] False
    have "length rs' < length rs2" by simp
    with len show ?thesis by simp
  qed
qed

section \<open>Euclid's algorithm and the modular inverse\<close>

text \<open>
  \<^verbatim>\<open>gcd\<close>: \<^verbatim>\<open>while b: a, b = b, a % b\<close>. The remainder has the sign of \<open>b\<close> and is
  smaller in absolute value, so the loop ends for all integers.
\<close>

function gcd_loop :: "int \<Rightarrow> int \<Rightarrow> int" where
  "gcd_loop a b = (if b \<noteq> 0 then gcd_loop b (a mod b) else a)"
  by pat_completeness auto
termination
  by (relation "measure (\<lambda>(a, b). nat \<bar>b\<bar>)") (auto simp: abs_mod_less)

declare gcd_loop.simps [simp del]

text \<open>
  \<^verbatim>\<open>mod_inverse\<close>: the loop \<^verbatim>\<open>while a > 1\<close> divides by \<open>m\<close>, which raises
  \<open>ZeroDivisionError\<close> when \<open>m\<close> has become 0 (the arguments were not coprime).
\<close>

function mod_inverse_loop :: "int \<Rightarrow> int \<Rightarrow> int \<Rightarrow> int \<Rightarrow> error + int" where
  "mod_inverse_loop a m x y =
     (if a > 1 then
        (if m = 0 then Inl ZeroDivisionError
         else (let q = a div m in mod_inverse_loop m (a mod m) y (x - q * y)))
      else Inr x)"
  by pat_completeness auto
termination
  by (relation "measure (\<lambda>(a, m, x, y).
        if a \<le> 1 then 0 else if m < 0 then 1 else 2 + nat m)")
     (auto simp: nat_less_iff)

declare mod_inverse_loop.simps [simp del]

definition mod_inverse :: "int \<Rightarrow> int \<Rightarrow> error + int" where
  "mod_inverse a m =
     (let m0 = m in
      if m = 1 then Inr 0
      else (case mod_inverse_loop a m 1 0 of
              Inl err \<Rightarrow> Inl err
            | Inr x \<Rightarrow> Inr (if x < 0 then x + m0 else x)))"

section \<open>Key generation\<close>

text \<open>The loop \<^verbatim>\<open>while p == q: q = generate_prime(bits // 2)\<close>.\<close>

function distinct_q :: "int \<Rightarrow> int \<Rightarrow> int \<Rightarrow> tape \<Rightarrow> int run" where
  "distinct_q bits p q rs =
     (if p = q then
        (case generate_prime (bits div 2) rs of
           None \<Rightarrow> None
         | Some (Inl err) \<Rightarrow> Some (Inl err)
         | Some (Inr (q', rs')) \<Rightarrow> distinct_q bits p q' rs')
      else Some (Inr (q, rs)))"
  by pat_completeness auto
termination
  by (relation "measure (\<lambda>(bits, p, q, rs). length rs)")
     (auto dest: generate_prime_tape)

declare distinct_q.simps [simp del]

text \<open>The loop \<^verbatim>\<open>while gcd(e, phi) != 1: e = random.randint(2, phi - 1)\<close>.\<close>

function choose_e :: "int \<Rightarrow> int \<Rightarrow> tape \<Rightarrow> int run" where
  "choose_e phi e rs =
     (if gcd_loop e phi \<noteq> 1 then
        (case randint 2 (phi - 1) rs of
           None \<Rightarrow> None
         | Some (Inl err) \<Rightarrow> Some (Inl err)
         | Some (Inr (e', rs')) \<Rightarrow> choose_e phi e' rs')
      else Some (Inr (e, rs)))"
  by pat_completeness auto
termination
  by (relation "measure (\<lambda>(phi, e, rs). length rs)")
     (auto simp: randint_def split: if_splits list.splits)

declare choose_e.simps [simp del]

text \<open>
  \<^verbatim>\<open>generate_keypair\<close>. The function returns \<open>((n, e), (n, d))\<close> only;
  \<open>generate_keypair_steps\<close> is its body and returns the local variables \<open>p\<close>,
  \<open>q\<close>, \<open>e\<close> and \<open>d\<close>, from which \<open>n = p * q\<close> and
  \<open>phi = (p - 1) * (q - 1)\<close> are computed. The calls of \<^verbatim>\<open>st.info\<close> and
  \<^verbatim>\<open>st.success\<close> only display text and are left out.
\<close>

definition generate_keypair_steps :: "int \<Rightarrow> tape \<Rightarrow> (int \<times> int \<times> int \<times> int) run" where
  "generate_keypair_steps bits rs =
     (case generate_prime (bits div 2) rs of
        None \<Rightarrow> None
      | Some (Inl err) \<Rightarrow> Some (Inl err)
      | Some (Inr (p, rs1)) \<Rightarrow>
     (case generate_prime (bits div 2) rs1 of
        None \<Rightarrow> None
      | Some (Inl err) \<Rightarrow> Some (Inl err)
      | Some (Inr (q0, rs2)) \<Rightarrow>
     (case distinct_q bits p q0 rs2 of
        None \<Rightarrow> None
      | Some (Inl err) \<Rightarrow> Some (Inl err)
      | Some (Inr (q, rs3)) \<Rightarrow>
     (let n = p * q; phi = (p - 1) * (q - 1) in
      case randint 2 (phi - 1) rs3 of
        None \<Rightarrow> None
      | Some (Inl err) \<Rightarrow> Some (Inl err)
      | Some (Inr (e0, rs4)) \<Rightarrow>
     (case choose_e phi e0 rs4 of
        None \<Rightarrow> None
      | Some (Inl err) \<Rightarrow> Some (Inl err)
      | Some (Inr (e, rs5)) \<Rightarrow>
     (case mod_inverse e phi of
        Inl err \<Rightarrow> Some (Inl err)
      | Inr d \<Rightarrow> Some (Inr ((p, q, e, d), rs5))))))))"

definition generate_keypair :: "int \<Rightarrow> tape \<Rightarrow> (key \<times> key) run" where
  "generate_keypair bits rs =
     (case generate_keypair_steps bits rs of
        None \<Rightarrow> None
      | Some (Inl err) \<Rightarrow> Some (Inl err)
      | Some (Inr ((p, q, e, d), rs')) \<Rightarrow> Some (Inr (((p * q, e), (p * q, d)), rs')))"

section \<open>Prime numbers\<close>

text \<open>
  The program only tests primality probabilistically. \<open>prime_nat\<close> is primality itself,
  by trial division, and states what "the underlying \<open>p\<close> and \<open>q\<close> are primes"
  means; it is not part of the program.
\<close>

definition prime_nat :: "nat \<Rightarrow> bool" where
  "prime_nat p = (1 < p \<and> (\<forall>m\<in>{2..<p}. \<not> m dvd p))"

section \<open>Modular powers by repeated squaring\<close>

text \<open>
  The built-in \<^verbatim>\<open>pow\<close> is specified by \<open>pow_mod\<close>; \<open>modpow_sq\<close> computes the same
  value by repeated squaring and is used to evaluate modular powers of concrete
  numbers without building the full power.
\<close>

fun modpow_sq :: "int \<Rightarrow> nat \<Rightarrow> int \<Rightarrow> int" where
  "modpow_sq b e m =
     (if e = 0 then 1 mod m
      else if even e then modpow_sq (b * b mod m) (e div 2) m
      else b * modpow_sq (b * b mod m) (e div 2) m mod m)"

declare modpow_sq.simps [simp del]

section \<open>Properties of the built-in operations\<close>

lemma modpow_sq_correct: "modpow_sq b e m = b ^ e mod m"
proof (induction b e m rule: modpow_sq.induct)
  case (1 b e m)
  show ?case
  proof (cases "e = 0")
    case True
    then show ?thesis by (simp add: modpow_sq.simps)
  next
    case False
    have sq: "(b * b mod m) ^ (e div 2) mod m = b ^ (2 * (e div 2)) mod m"
      by (simp add: power_mult power2_eq_square power_mod)
    show ?thesis
    proof (cases "even e")
      case True
      then have "2 * (e div 2) = e" by simp
      with 1 False True sq show ?thesis
        by (subst modpow_sq.simps) simp
    next
      case odd: False
      then have e: "Suc (2 * (e div 2)) = e" by simp
      have "b * modpow_sq (b * b mod m) (e div 2) m mod m = b * (b ^ (2 * (e div 2)) mod m) mod m"
        using 1 False odd sq by simp
      also have "\<dots> = b ^ Suc (2 * (e div 2)) mod m"
        by (simp add: mod_mult_right_eq)
      finally show ?thesis
        using False odd e by (subst modpow_sq.simps) simp
    qed
  qed
qed

lemma pow_mod_code [code]: "pow_mod b e m = modpow_sq b (nat e) m"
  by (simp add: pow_mod_def modpow_sq_correct)

lemma py_pow_nonneg: "m \<noteq> 0 \<Longrightarrow> 0 \<le> e \<Longrightarrow> py_pow b e m = Inr (pow_mod b e m)"
  by (auto simp: py_pow_def pow_mod_def abs_if split: if_splits)

lemma py_pow_error: "py_pow b e m = Inl err \<Longrightarrow> err = ValueError"
  by (auto simp: py_pow_def split: if_splits option.splits)

section \<open>Encryption: the precondition on symbol codes\<close>

lemma encrypt_loop_rejects:
  "\<exists>c\<in>set msg. ord c \<ge> n \<Longrightarrow>
   encrypt_loop n e msg acc = Inr [] \<or> encrypt_loop n e msg acc = Inl ValueError"
proof (induction msg arbitrary: acc)
  case Nil
  then show ?case by simp
next
  case (Cons c msg)
  show ?case
  proof (cases "ord c \<ge> n")
    case True
    then show ?thesis by simp
  next
    case False
    with Cons.prems have "\<exists>c\<in>set msg. ord c \<ge> n" by simp
    from Cons.IH [OF this] False show ?thesis
      by (auto simp: Let_def split: sum.splits dest: py_pow_error)
  qed
qed

lemma encrypt_loop_rejects_nonneg:
  "\<exists>c\<in>set msg. ord c \<ge> n \<Longrightarrow> valid_str msg \<Longrightarrow> 0 \<le> e \<Longrightarrow>
   encrypt_loop n e msg acc = Inr []"
proof (induction msg arbitrary: acc)
  case Nil
  then show ?case by simp
next
  case (Cons c msg)
  show ?case
  proof (cases "ord c \<ge> n")
    case True
    then show ?thesis by simp
  next
    case False
    with Cons.prems have ex: "\<exists>c\<in>set msg. ord c \<ge> n" by simp
    from Cons.prems have v: "valid_str msg" and c: "0 \<le> c"
      by (simp_all add: valid_str_def)
    from False c have "n \<noteq> 0" by (simp add: ord_def)
    with Cons.IH [OF ex v Cons.prems(3)] False Cons.prems(3) show ?thesis
      by (simp add: Let_def py_pow_nonneg)
  qed
qed

text \<open>
  Claim C3: when some symbol of the message has a code \<open>\<ge> n\<close>, \<^verbatim>\<open>encrypt\<close> fails for the
  whole message: its result is the empty list or a raised \<open>ValueError\<close>, never a
  partial ciphertext; for a well-formed message and \<open>e \<ge> 0\<close> it is the empty list.
\<close>

theorem encrypt_fails_without_partial_output:
  assumes "\<exists>c\<in>set message. ord c \<ge> n"
  shows "(encrypt (n, e) message = Inr [] \<or> encrypt (n, e) message = Inl ValueError) \<and>
         (valid_str message \<and> 0 \<le> e \<longrightarrow> encrypt (n, e) message = Inr [])"
  using assms encrypt_loop_rejects [of message n e "[]"]
    encrypt_loop_rejects_nonneg [of message n e "[]"]
  by simp

theorem encrypt_fails_without_partial_output_witness:
  "(\<exists>c\<in>set [65, 200]. ord c \<ge> 143) \<and> valid_str [65, 200] \<and> (0::int) \<le> 7 \<and>
   encrypt (143, 7) [65, 200] = Inr []"
  using encrypt_fails_without_partial_output [of "[65, 200]" 143 7]
  by (simp add: ord_def valid_str_def)

text \<open>
  Claim C9: \<^verbatim>\<open>encrypt\<close> of the empty message returns the empty list, the value it
  returns on a precondition failure, and the caller, which tests the result for
  emptiness, reports a failure in both cases.
\<close>

theorem empty_message_looks_like_failure:
  "encrypt (n, e) [] = Inr [] \<and>
   encrypt_button (n, e) [] stored = Inr (stored, Encryption_failed) \<and>
   ((\<exists>c\<in>set message. ord c \<ge> n) \<and> valid_str message \<and> 0 \<le> e \<longrightarrow>
      encrypt (n, e) message = encrypt (n, e) [] \<and>
      encrypt_button (n, e) message stored = encrypt_button (n, e) [] stored)"
  using encrypt_loop_rejects_nonneg [of message n e "[]"]
  by (simp add: encrypt_button_def)

theorem empty_message_looks_like_failure_witness:
  "(\<exists>c\<in>set [65, 200]. ord c \<ge> 143) \<and> valid_str [65, 200] \<and> (0::int) \<le> 7 \<and>
   encrypt (143, 7) [65, 200] = encrypt (143, 7) [] \<and>
   encrypt_button (143, 7) [65, 200] [1, 2] = Inr ([1, 2], Encryption_failed) \<and>
   encrypt_button (143, 7) [] [1, 2] = Inr ([1, 2], Encryption_failed)"
  using empty_message_looks_like_failure [of 143 7 "[1, 2]" "[65, 200]"]
  by (simp add: ord_def valid_str_def)

section \<open>Primality test: zero rounds\<close>

text \<open>
  Claim C10: with \<open>k = 0\<close> the witness loop does not run, and \<^verbatim>\<open>is_prime\<close> returns
  \<open>True\<close> for every odd \<open>n \<ge> 5\<close>, prime or composite, without drawing a witness.
\<close>

theorem is_prime_zero_rounds:
  assumes "5 \<le> n" and "odd n"
  shows "is_prime n 0 rs = Some (Inr (True, rs))"
proof -
  from assms have "n mod 2 \<noteq> 0" by presburger
  with assms show ?thesis
    by (simp add: is_prime_def split: prod.splits)
qed

theorem is_prime_zero_rounds_witness:
  "(5::int) \<le> 9 \<and> odd (9::int) \<and> is_prime 9 0 [] = Some (Inr (True, []))"
  using is_prime_zero_rounds [of 9 "[]"] by simp

section \<open>The concrete scenario\<close>

text \<open>
  Claim C4: with \<open>p = 61\<close>, \<open>q = 53\<close> (\<open>n = 3233\<close>, \<open>phi = 3120\<close>) and \<open>e = 17\<close>,
  \<^verbatim>\<open>mod_inverse(17, 3120)\<close> is 2753, the symbol with code 65 encrypts to 2790, and 2790
  decrypts to the symbol with code 65.
\<close>

theorem concrete_scenario:
  "(61::int) * 53 = 3233 \<and> ((61::int) - 1) * (53 - 1) = 3120 \<and>
   gcd_loop 17 3120 = 1 \<and>
   mod_inverse 17 3120 = Inr 2753 \<and>
   pow_mod 65 17 3233 = 2790 \<and>
   encrypt (3233, 17) [65] = Inr [2790] \<and>
   decrypt (3233, 2753) [2790] = Inr [65]"
  by (simp add: mod_inverse_def mod_inverse_loop.simps gcd_loop.simps ord_def chr_def
      py_pow_nonneg pow_mod_code modpow_sq.simps)

section \<open>Decryption: failure and success\<close>

lemma py_pow_range: "0 < n \<Longrightarrow> py_pow c d n = Inr v \<Longrightarrow> 0 \<le> v \<and> v < n"
  by (auto simp: py_pow_def pow_mod_def split: if_splits option.splits)

lemma chr_nonneg:
  "0 \<le> v \<Longrightarrow>
   chr v = (if v < 1114112 then Inr v
            else Inl (if 2147483647 < v then OverflowError else ValueError))"
  by (simp add: chr_def)

lemma decrypt_loop_returns:
  assumes "0 < n"
  shows "\<forall>c\<in>set cs. \<exists>v. py_pow c d n = Inr v \<and> v < 1114112 \<Longrightarrow>
         \<exists>s. decrypt_loop n d cs acc = Inr (acc @ s) \<and> length s = length cs"
proof (induction cs arbitrary: acc)
  case Nil
  show ?case by simp
next
  case (Cons c cs)
  then obtain v where v: "py_pow c d n = Inr v" "v < 1114112" by auto
  with py_pow_range [OF assms v(1)] have ch: "chr v = Inr v" by (simp add: chr_nonneg)
  from Cons.prems have "\<forall>c\<in>set cs. \<exists>v. py_pow c d n = Inr v \<and> v < 1114112" by simp
  from Cons.IH [OF this, of "acc @ [v]"] obtain s where
    "decrypt_loop n d cs (acc @ [v]) = Inr (acc @ v # s)" "length s = length cs" by auto
  then show ?case by (intro exI [of _ "v # s"]) (simp add: v ch)
qed

lemma decrypt_loop_raises:
  assumes "0 < n"
  shows "\<not> (\<forall>c\<in>set cs. \<exists>v. py_pow c d n = Inr v \<and> v < 1114112) \<Longrightarrow>
         \<exists>err. decrypt_loop n d cs acc = Inl err \<and> (err = ValueError \<or> err = OverflowError)"
proof (induction cs arbitrary: acc)
  case Nil
  then show ?case by simp
next
  case (Cons c cs)
  show ?case
  proof (cases "py_pow c d n")
    case (Inl err)
    with py_pow_error [OF Inl] show ?thesis by simp
  next
    case (Inr v)
    from py_pow_range [OF assms Inr] have nn: "0 \<le> v" by simp
    show ?thesis
    proof (cases "v < 1114112")
      case False
      with nn Inr show ?thesis by (simp add: chr_nonneg)
    next
      case True
      with Cons.prems Inr
      have "\<not> (\<forall>c\<in>set cs. \<exists>v. py_pow c d n = Inr v \<and> v < 1114112)" by simp
      from Cons.IH [OF this, of "acc @ [v]"] True nn Inr show ?thesis
        by (simp add: chr_nonneg)
    qed
  qed
qed

lemma decrypt_loop_nonneg:
  assumes "0 < n" and "0 \<le> d"
  shows "decrypt_loop n d cs acc =
           (case find (\<lambda>c. 1114112 \<le> pow_mod c d n) cs of
              None \<Rightarrow> Inr (acc @ map (\<lambda>c. pow_mod c d n) cs)
            | Some c \<Rightarrow>
                Inl (if 2147483647 < pow_mod c d n then OverflowError else ValueError))"
proof (induction cs arbitrary: acc)
  case Nil
  show ?case by simp
next
  case (Cons c cs)
  from assms have p: "py_pow c d n = Inr (pow_mod c d n)"
    by (simp add: py_pow_nonneg)
  from assms have "0 \<le> pow_mod c d n"
    by (simp add: pow_mod_def)
  note ch = chr_nonneg [OF this]
  show ?case
    by (simp add: p ch Cons.IH split: option.splits)
qed

lemma decrypt_loop_accepts:
  assumes "0 < n" and "0 \<le> d" and "\<forall>c\<in>set cs. pow_mod c d n < 1114112"
  shows "decrypt_loop n d cs acc = Inr (acc @ map (\<lambda>c. pow_mod c d n) cs)"
proof -
  from assms(3) have "find (\<lambda>c. 1114112 \<le> pow_mod c d n) cs = None"
    by (auto simp: find_None_iff)
  then show ?thesis by (simp add: decrypt_loop_nonneg [OF assms(1,2)])
qed

text \<open>
  Claim C2, as stated (decryption never raises for \<open>n > 0\<close> and values in \<open>[0, n)\<close>),
  fails. With \<open>n = 1115111 = 1051 * 1061\<close> and \<open>d = 607091\<close> (the inverse of \<open>e = 11\<close>)
  the value 166280 gives the power 1114500, outside the range of \<open>chr\<close>, and
  \<^verbatim>\<open>decrypt\<close> raises \<open>ValueError\<close>; with \<open>n = 11898750557\<close> and \<open>d = 3425199419\<close> the
  value 3 gives a power from \<open>2 ^ 31\<close> on and \<^verbatim>\<open>decrypt\<close> raises \<open>OverflowError\<close>; and
  with a negative exponent, \<open>n = 4\<close> and \<open>d = - 1\<close>, the value 2 is not invertible and
  \<^verbatim>\<open>pow\<close> itself raises \<open>ValueError\<close>.
\<close>

theorem decrypt_fails_on_large_value:
  "(0::int) < 1115111 \<and> (0::int) \<le> 166280 \<and> (166280::int) < 1115111 \<and>
   decrypt (1115111, 607091) [166280] = Inl ValueError \<and>
   (0::int) < 11898750557 \<and> (0::int) \<le> 3 \<and> (3::int) < 11898750557 \<and>
   decrypt (11898750557, 3425199419) [3] = Inl OverflowError \<and>
   (0::int) < 4 \<and> (0::int) \<le> 2 \<and> (2::int) < 4 \<and>
   decrypt (4, - 1) [2] = Inl ValueError"
proof -
  have "decrypt (1115111, 607091) [166280] = Inl ValueError"
    by (simp add: chr_def py_pow_nonneg pow_mod_code modpow_sq.simps)
  moreover have "decrypt (11898750557, 3425199419) [3] = Inl OverflowError"
    by (simp add: chr_def py_pow_nonneg pow_mod_code modpow_sq.simps)
  moreover have "decrypt (4, - 1) [2] = Inl ValueError"
    by (simp add: py_pow_def invmod_def upt_rec)
  ultimately show ?thesis by simp
qed

text \<open>
  Claim C2, amended: for a private key \<open>(n, d)\<close> with \<open>n > 0\<close> and any ciphertext,
  \<^verbatim>\<open>decrypt\<close> returns (one symbol for every value) exactly when \<^verbatim>\<open>pow(value, d, n)\<close>
  returns a result below \<open>0x110000\<close> for every value; otherwise it raises \<open>ValueError\<close>
  or \<open>OverflowError\<close>. For \<open>d \<ge> 0\<close> the power always exists: the first value whose
  power \<open>value ^ d mod n\<close> is not below \<open>0x110000\<close> decides the exception
  (\<open>OverflowError\<close> from \<open>2 ^ 31\<close> on, \<open>ValueError\<close> below), and when also
  \<open>n \<le> 0x110000\<close> there is no such value and \<^verbatim>\<open>decrypt\<close> never raises, whichever key
  produced the ciphertext.
\<close>

theorem decrypt_total_below_chr_range:
  assumes "0 < n"
  shows "((\<exists>s. decrypt (n, d) ciphertext = Inr s) \<longleftrightarrow>
            (\<forall>c\<in>set ciphertext. \<exists>v. py_pow c d n = Inr v \<and> v < 1114112)) \<and>
         (\<forall>s. decrypt (n, d) ciphertext = Inr s \<longrightarrow> length s = length ciphertext) \<and>
         (\<forall>err. decrypt (n, d) ciphertext = Inl err \<longrightarrow>
            err = ValueError \<or> err = OverflowError) \<and>
         (0 \<le> d \<longrightarrow>
            decrypt (n, d) ciphertext =
              (case find (\<lambda>c. 1114112 \<le> pow_mod c d n) ciphertext of
                 None \<Rightarrow> Inr (map (\<lambda>c. pow_mod c d n) ciphertext)
               | Some c \<Rightarrow>
                   Inl (if 2147483647 < pow_mod c d n then OverflowError else ValueError))) \<and>
         (0 \<le> d \<and> n \<le> 1114112 \<longrightarrow>
            decrypt (n, d) ciphertext = Inr (map (\<lambda>c. pow_mod c d n) ciphertext))"
proof (intro conjI allI impI)
  let ?ok = "\<forall>c\<in>set ciphertext. \<exists>v. py_pow c d n = Inr v \<and> v < 1114112"
  have ret: "\<exists>s. decrypt (n, d) ciphertext = Inr s \<and> length s = length ciphertext" if "?ok"
    using decrypt_loop_returns [OF assms that, of "[]"] by simp
  have rai: "\<exists>err. decrypt (n, d) ciphertext = Inl err \<and>
      (err = ValueError \<or> err = OverflowError)" if "\<not> ?ok"
    using decrypt_loop_raises [OF assms that, of "[]"] by simp
  show "(\<exists>s. decrypt (n, d) ciphertext = Inr s) \<longleftrightarrow> ?ok"
    using ret rai by (cases "?ok") auto
  show "length s = length ciphertext" if "decrypt (n, d) ciphertext = Inr s" for s
    using ret rai that by (cases "?ok") auto
  show "err = ValueError \<or> err = OverflowError" if "decrypt (n, d) ciphertext = Inl err" for err
    using ret rai that by (cases "?ok") auto
  show "decrypt (n, d) ciphertext =
      (case find (\<lambda>c. 1114112 \<le> pow_mod c d n) ciphertext of
         None \<Rightarrow> Inr (map (\<lambda>c. pow_mod c d n) ciphertext)
       | Some c \<Rightarrow> Inl (if 2147483647 < pow_mod c d n then OverflowError else ValueError))"
    if "0 \<le> d"
    using decrypt_loop_nonneg [OF assms that, of ciphertext "[]"]
    by (simp split: option.splits)
  show "decrypt (n, d) ciphertext = Inr (map (\<lambda>c. pow_mod c d n) ciphertext)"
    if h: "0 \<le> d \<and> n \<le> 1114112"
  proof -
    have "pow_mod c d n < 1114112" for c
    proof -
      from assms have "pow_mod c d n < n" by (simp add: pow_mod_def)
      with h show ?thesis by simp
    qed
    then show ?thesis
      using decrypt_loop_accepts [OF assms, of d ciphertext "[]"] h by simp
  qed
qed

theorem decrypt_total_below_chr_range_witness:
  "(0::int) < 3233 \<and> (0::int) \<le> 2753 \<and> (3233::int) \<le> 1114112 \<and>
   decrypt (3233, 2753) [2790, 1] = Inr [65, 1] \<and> length [65, 1 :: int] = length [2790, 1 :: int]"
proof -
  have a: "(0::int) < 3233" by simp
  have b: "(0::int) \<le> 2753 \<and> (3233::int) \<le> 1114112" by simp
  note t = decrypt_total_below_chr_range [OF a, of 2753 "[2790, 1]"]
  from t b have "decrypt (3233, 2753) [2790, 1] =
      Inr (map (\<lambda>c. pow_mod c 2753 3233) [2790, 1])"
    by blast
  then have "decrypt (3233, 2753) [2790, 1] =
      Inr [pow_mod 2790 2753 3233, pow_mod 1 2753 3233]"
    by (simp only: list.map)
  moreover have "pow_mod 2790 2753 3233 = 65"
    by (simp add: pow_mod_code modpow_sq.simps)
  moreover have "pow_mod 1 2753 3233 = 1"
    by (simp add: pow_mod_def)
  ultimately show ?thesis by simp
qed

section \<open>Euclid's algorithm and the modular inverse: correctness\<close>

lemma gcd_loop_eq_gcd: "0 \<le> a \<Longrightarrow> 0 \<le> b \<Longrightarrow> gcd_loop a b = gcd a b"
proof (induction a b rule: gcd_loop.induct)
  case (1 a b)
  show ?case
  proof (cases "b = 0")
    case True
    with "1.prems" show ?thesis by (simp add: gcd_loop.simps)
  next
    case False
    with "1.prems" have "0 \<le> a mod b" by simp
    with "1.IH" [OF False] "1.prems" have "gcd_loop b (a mod b) = gcd b (a mod b)" by simp
    also have "\<dots> = gcd a b" by (rule gcd_red_int [symmetric])
    finally show ?thesis using False by (subst gcd_loop.simps) simp
  qed
qed

lemma mod_inverse_loop_inv:
  assumes "1 \<le> a" and "0 \<le> m" and "gcd a m = 1"
    and "(0 \<le> x \<and> y \<le> 0 \<and> x * m - y * a = m0) \<or> (x \<le> 0 \<and> 0 \<le> y \<and> y * a - x * m = m0)"
    and "\<bar>x\<bar> < m0"
    and "m0 dvd x * a0 - a" and "m0 dvd y * a0 - m"
  shows "\<exists>r. mod_inverse_loop a m x y = Inr r \<and> \<bar>r\<bar> < m0 \<and> m0 dvd r * a0 - 1"
  using assms
proof (induction a m x y rule: mod_inverse_loop.induct)
  case (1 a m x y)
  show ?case
  proof (cases "a > 1")
    case False
    with "1.prems" have "a = 1" by simp
    with "1.prems" show ?thesis by (subst mod_inverse_loop.simps) simp
  next
    case True
    have m0: "m \<noteq> 0"
    proof
      assume "m = 0"
      with "1.prems"(3) True show False by simp
    qed
    with "1.prems" have mpos: "1 \<le> m" by simp
    define q where "q = a div m"
    have qnn: "0 \<le> q" using True mpos by (simp add: q_def pos_imp_zdiv_nonneg_iff)
    have am: "a mod m = a - q * m" by (simp add: q_def minus_div_mult_eq_mod)
    have g: "gcd m (a mod m) = 1" using "1.prems"(3) by (simp add: gcd_red_int [symmetric])
    have nn: "0 \<le> a mod m" using mpos by simp
    have sgn: "(0 \<le> y \<and> x - q * y \<le> 0 \<and> y * (a mod m) - (x - q * y) * m = m0) \<or>
               (y \<le> 0 \<and> 0 \<le> x - q * y \<and> (x - q * y) * m - y * (a mod m) = m0)"
    proof -
      from "1.prems"(4) show ?thesis
      proof
        assume h: "0 \<le> x \<and> y \<le> 0 \<and> x * m - y * a = m0"
        then have "q * y \<le> 0" using qnn by (simp add: mult_nonneg_nonpos)
        with h have "0 \<le> x - q * y" by simp
        moreover have "(x - q * y) * m - y * (a mod m) = x * m - y * a"
          by (simp add: am algebra_simps)
        ultimately show ?thesis using h by simp
      next
        assume h: "x \<le> 0 \<and> 0 \<le> y \<and> y * a - x * m = m0"
        then have "0 \<le> q * y" using qnn by simp
        with h have "x - q * y \<le> 0" by simp
        moreover have "y * (a mod m) - (x - q * y) * m = y * a - x * m"
          by (simp add: am algebra_simps)
        ultimately show ?thesis using h by simp
      qed
    qed
    have ybound: "\<bar>y\<bar> < m0"
    proof -
      have "\<bar>y\<bar> * a \<le> m0"
      proof -
        from "1.prems"(4) show ?thesis
        proof
          assume h: "0 \<le> x \<and> y \<le> 0 \<and> x * m - y * a = m0"
          then have "0 \<le> x * m" using mpos by simp
          moreover from h have "\<bar>y\<bar> * a = - (y * a)" by simp
          ultimately show ?thesis using h by linarith
        next
          assume h: "x \<le> 0 \<and> 0 \<le> y \<and> y * a - x * m = m0"
          then have "x * m \<le> 0" using mpos by (simp add: mult_nonpos_nonneg)
          moreover from h have "\<bar>y\<bar> * a = y * a" by simp
          ultimately show ?thesis using h by linarith
        qed
      qed
      moreover have "\<bar>y\<bar> * 2 \<le> \<bar>y\<bar> * a"
        using True by (intro mult_left_mono) simp_all
      moreover have "0 < m0" using "1.prems"(5) by linarith
      ultimately show ?thesis by linarith
    qed
    have d1: "m0 dvd y * a0 - m" by (rule "1.prems"(7))
    have d2: "m0 dvd (x - q * y) * a0 - a mod m"
    proof -
      have "(x - q * y) * a0 - a mod m = (x * a0 - a) - q * (y * a0 - m)"
        by (simp add: am algebra_simps)
      with "1.prems"(6,7) show ?thesis by simp
    qed
    have "\<exists>r. mod_inverse_loop m (a mod m) y (x - q * y) = Inr r \<and> \<bar>r\<bar> < m0 \<and> m0 dvd r * a0 - 1"
      using "1.IH" [OF True m0 q_def mpos nn g sgn ybound d1 d2] .
    then show ?thesis
      using True m0 by (subst mod_inverse_loop.simps) (simp add: q_def Let_def)
  qed
qed

lemma mod_inverse_correct:
  assumes "1 \<le> a" and "1 < m" and "gcd a m = 1"
  shows "\<exists>r x. mod_inverse_loop a m 1 0 = Inr r \<and> x = (if r < 0 then r + m else r) \<and>
           mod_inverse a m = Inr x \<and> 0 \<le> x \<and> x < m \<and> (a * x) mod m = 1"
proof -
  have "\<exists>r. mod_inverse_loop a m 1 0 = Inr r \<and> \<bar>r\<bar> < m \<and> m dvd r * a - 1"
    using assms by (intro mod_inverse_loop_inv) simp_all
  then obtain r where r: "mod_inverse_loop a m 1 0 = Inr r" "\<bar>r\<bar> < m" "m dvd r * a - 1"
    by blast
  define x where "x = (if r < 0 then r + m else r)"
  have res: "mod_inverse a m = Inr x"
    using assms(2) r(1) by (simp add: mod_inverse_def x_def Let_def)
  have range: "0 \<le> x \<and> x < m" using r(2) by (auto simp: x_def)
  have "m dvd x * a - 1"
  proof (cases "r < 0")
    case True
    have e: "x * a - 1 = (r * a - 1) + m * a" using True by (simp add: x_def algebra_simps)
    have "m dvd (r * a - 1) + m * a" using r(3) by (rule dvd_add) simp
    then show ?thesis unfolding e .
  next
    case False
    with r(3) show ?thesis by (simp add: x_def)
  qed
  then have "(x * a) mod m = 1 mod m"
    by (simp add: mod_eq_dvd_iff)
  with assms(2) have "(a * x) mod m = 1" by (simp add: mult.commute)
  with res range r(1) x_def show ?thesis by blast
qed

section \<open>Results of the generation loops\<close>

lemma randint_range:
  "randint a b rs = Some (Inr (v, rs')) \<Longrightarrow> a \<le> v \<and> v \<le> b"
  by (auto simp: randint_def split: if_splits list.splits)
     (smt (verit) pos_mod_bound)

lemma choose_e_result:
  "choose_e phi e0 rs = Some (Inr (e, rs')) \<Longrightarrow> 2 \<le> e0 \<and> e0 \<le> phi - 1 \<Longrightarrow>
   gcd_loop e phi = 1 \<and> 2 \<le> e \<and> e \<le> phi - 1"
proof (induction phi e0 rs rule: choose_e.induct)
  case (1 phi e0 rs)
  show ?case
  proof (cases "gcd_loop e0 phi \<noteq> 1")
    case False
    with "1.prems" show ?thesis by (subst (asm) choose_e.simps) simp
  next
    case True
    with "1.prems"(1) obtain e1 rs1 where
      r: "randint 2 (phi - 1) rs = Some (Inr (e1, rs1))" and
      c: "choose_e phi e1 rs1 = Some (Inr (e, rs'))"
      by (subst (asm) choose_e.simps) (simp split: option.splits sum.splits prod.splits)
    from randint_range [OF r] have "2 \<le> e1 \<and> e1 \<le> phi - 1" .
    with "1.IH" [OF True r refl refl c] show ?thesis by simp
  qed
qed

lemma distinct_q_result:
  "distinct_q bits p q0 rs = Some (Inr (q, rs')) \<Longrightarrow>
   q \<noteq> p \<and> (q = q0 \<and> rs' = rs \<or> (\<exists>rs1. generate_prime (bits div 2) rs1 = Some (Inr (q, rs'))))"
proof (induction bits p q0 rs rule: distinct_q.induct)
  case (1 bits p q0 rs)
  show ?case
  proof (cases "p = q0")
    case False
    with "1.prems" show ?thesis by (subst (asm) distinct_q.simps) auto
  next
    case True
    with "1.prems" obtain q1 rs1 where
      g: "generate_prime (bits div 2) rs = Some (Inr (q1, rs1))" and
      c: "distinct_q bits p q1 rs1 = Some (Inr (q, rs'))"
      by (subst (asm) distinct_q.simps) (simp split: option.splits sum.splits prod.splits)
    from "1.IH" [OF True g refl refl c] g show ?thesis by blast
  qed
qed

lemma generate_prime_result:
  "generate_prime bits rs = Some (Inr (p, rs')) \<Longrightarrow>
   1 \<le> bits \<and> (\<exists>r rs1. p = (int r mod 2 ^ nat bits) OR (push_bit (nat (bits - 1)) 1 OR 1) \<and>
      is_prime p 5 rs1 = Some (Inr (True, rs')))"
proof (induction bits rs rule: generate_prime.induct)
  case (1 bits rs)
  from "1.prems" obtain p0 rs1 msb b rs2 where
    g: "getrandbits bits rs = Some (Inr (p0, rs1))" and
    l: "lshift 1 (bits - 1) = Inr msb" and
    i: "is_prime (p0 OR (msb OR 1)) 5 rs1 = Some (Inr (b, rs2))" and
    r: "if b then p = p0 OR (msb OR 1) \<and> rs' = rs2
        else generate_prime bits rs2 = Some (Inr (p, rs'))"
    by (subst (asm) generate_prime.simps)
       (simp add: Let_def split: option.splits sum.splits prod.splits if_splits)
  show ?case
  proof (cases b)
    case True
    from l have bits: "1 \<le> bits" and msb: "msb = push_bit (nat (bits - 1)) 1"
      by (auto simp: lshift_def split: if_splits)
    from g obtain r0 where "p0 = int r0 mod 2 ^ nat bits"
      by (auto simp: getrandbits_def split: if_splits list.splits)
    with True r i bits msb show ?thesis by auto
  next
    case False
    with r have "generate_prime bits rs2 = Some (Inr (p, rs'))" by simp
    with "1.IH" [OF g refl refl l refl i refl refl] False show ?thesis by simp
  qed
qed

lemma candidate_bounds:
  fixes r :: nat
  assumes "1 \<le> bits"
    and p_def: "p = (int r mod 2 ^ nat bits) OR (push_bit (nat (bits - 1)) 1 OR 1)"
  shows "2 ^ nat (bits - 1) \<le> p" and "p < 2 ^ nat bits" and "odd p"
proof -
  have nb: "nat bits = Suc (nat (bits - 1))" using assms(1) by simp
  have r0: "0 \<le> int r mod 2 ^ nat bits" and r1: "int r mod 2 ^ nat bits < 2 ^ nat bits"
    by simp_all
  have m0: "(0::int) \<le> push_bit (nat (bits - 1)) 1 OR 1" by simp
  have p1: "(1::int) \<le> 2 ^ nat (bits - 1)" by simp
  have one: "(1::int) < 2 ^ nat bits"
    unfolding nb power_Suc using p1 by linarith
  have m1: "push_bit (nat (bits - 1)) (1::int) OR 1 < 2 ^ nat bits"
    using one by (intro OR_upper) (simp_all add: nb push_bit_eq_mult)
  show "p < 2 ^ nat bits"
    unfolding p_def using r0 r1 m1 by (rule OR_upper)
  have "(2::int) ^ nat (bits - 1) \<le> push_bit (nat (bits - 1)) 1 OR 1"
    using or_greater_eq [of 1 "push_bit (nat (bits - 1)) (1::int)"] by (simp add: push_bit_eq_mult)
  also have "\<dots> \<le> p"
    unfolding p_def using or_greater_eq [OF r0, of "push_bit (nat (bits - 1)) 1 OR 1"]
    by (simp add: or.commute)
  finally show "2 ^ nat (bits - 1) \<le> p" .
  show "odd p" unfolding p_def by (simp only: even_or_iff) simp
qed

lemma generate_keypair_steps_result:
  assumes "generate_keypair_steps bits rs = Some (Inr ((p, q, e, d), rs'))"
  shows "p \<noteq> q"
    and "\<exists>rs1 rs2. generate_prime (bits div 2) rs1 = Some (Inr (p, rs2))"
    and "\<exists>rs1 rs2. generate_prime (bits div 2) rs1 = Some (Inr (q, rs2))"
    and "2 \<le> e" and "e \<le> (p - 1) * (q - 1) - 1"
    and "gcd_loop e ((p - 1) * (q - 1)) = 1"
    and "mod_inverse e ((p - 1) * (q - 1)) = Inr d"
proof -
  from assms obtain rs1 q0 rs2 rs3 e0 rs4 where
    gp: "generate_prime (bits div 2) rs = Some (Inr (p, rs1))" and
    gq: "generate_prime (bits div 2) rs1 = Some (Inr (q0, rs2))" and
    dq: "distinct_q bits p q0 rs2 = Some (Inr (q, rs3))" and
    ri: "randint 2 ((p - 1) * (q - 1) - 1) rs3 = Some (Inr (e0, rs4))" and
    ce: "choose_e ((p - 1) * (q - 1)) e0 rs4 = Some (Inr (e, rs'))" and
    mi: "mod_inverse e ((p - 1) * (q - 1)) = Inr d"
    unfolding generate_keypair_steps_def
    by (simp add: Let_def split: option.splits sum.splits prod.splits)
  from distinct_q_result [OF dq] gq show "p \<noteq> q"
    and "\<exists>rs1 rs2. generate_prime (bits div 2) rs1 = Some (Inr (q, rs2))"
    by blast+
  from gp show "\<exists>rs1 rs2. generate_prime (bits div 2) rs1 = Some (Inr (p, rs2))" by blast
  from choose_e_result [OF ce] randint_range [OF ri]
  show "2 \<le> e" and "e \<le> (p - 1) * (q - 1) - 1" and "gcd_loop e ((p - 1) * (q - 1)) = 1"
    by simp_all
  from mi show "mod_inverse e ((p - 1) * (q - 1)) = Inr d" .
qed

lemma generate_keypair_steps_iff:
  "generate_keypair bits rs = Some (Inr ((pub, priv), rs')) \<longleftrightarrow>
   (\<exists>p q e d. generate_keypair_steps bits rs = Some (Inr ((p, q, e, d), rs')) \<and>
      pub = (p * q, e) \<and> priv = (p * q, d))"
  unfolding generate_keypair_def
  by (auto split: option.splits sum.splits prod.splits)

section \<open>A sample run of key generation\<close>

text \<open>
  A tape on which \<^verbatim>\<open>generate_keypair(16)\<close> returns: the candidate 131 is drawn twice
  (so \<open>q\<close> is drawn again, 137), and the exponents 18 and 2 are rejected before 3.
\<close>

lemma sample_keypair_steps:
  "generate_keypair_steps 16
     [131, 0, 1, 2, 3, 4, 131, 0, 1, 2, 3, 4, 137, 0, 1, 2, 3, 4, 16, 0, 1]
   = Some (Inr ((131, 137, 3, 11787), []))"
  by code_simp

lemma sample_keypair:
  "generate_keypair 16
     [131, 0, 1, 2, 3, 4, 131, 0, 1, 2, 3, 4, 137, 0, 1, 2, 3, 4, 16, 0, 1]
   = Some (Inr (((17947, 3), (17947, 11787)), []))"
  by code_simp

section \<open>Properties of generated primes and keys\<close>

text \<open>
  Claim C8: for \<open>bits \<ge> 2\<close>, a value returned by \<^verbatim>\<open>generate_prime(bits)\<close> lies in
  \<open>[2 ^ (bits - 1), 2 ^ bits)\<close> (it has exactly \<open>bits\<close> bits, the top one set), is odd,
  and was accepted by \<^verbatim>\<open>is_prime\<close> with 5 rounds on the draws of that run.
\<close>

theorem generate_prime_bit_length:
  assumes "2 \<le> bits" and "generate_prime bits rs = Some (Inr (p, rs'))"
  shows "2 ^ nat (bits - 1) \<le> p \<and> p < 2 ^ nat bits \<and> odd p \<and>
         (\<exists>rs1. is_prime p 5 rs1 = Some (Inr (True, rs')))"
proof -
  from generate_prime_result [OF assms(2)] obtain r rs1 where
    b: "1 \<le> bits" and
    p: "p = (int r mod 2 ^ nat bits) OR (push_bit (nat (bits - 1)) 1 OR 1)" and
    i: "is_prime p 5 rs1 = Some (Inr (True, rs'))"
    by blast
  from candidate_bounds [OF b p] i show ?thesis by blast
qed

theorem generate_prime_bit_length_witness:
  "(2::int) \<le> 8 \<and> generate_prime 8 [5, 0, 131, 1, 2, 3, 4, 5] = Some (Inr (131, [])) \<and>
   (2::int) ^ nat (8 - 1) \<le> 131 \<and> (131::int) < 2 ^ nat 8 \<and> odd (131::int) \<and>
   (\<exists>rs1. is_prime 131 5 rs1 = Some (Inr (True, [])))"
proof -
  have g: "generate_prime 8 [5, 0, 131, 1, 2, 3, 4, 5] = Some (Inr (131, []))"
    by code_simp
  have b: "(2::int) \<le> 8" by simp
  from generate_prime_bit_length [OF b g] b g show ?thesis by blast
qed

text \<open>
  Claim C7: the public exponent \<open>e\<close> of a returned key pair satisfies
  \<open>gcd(e, phi) = 1\<close>, for the program's \<^verbatim>\<open>gcd\<close> and for the mathematical one, and
  \<open>1 < e < phi\<close>, where \<open>phi = (p - 1) * (q - 1)\<close>.
\<close>

theorem selected_exponent_coprime:
  assumes "generate_keypair bits rs = Some (Inr ((pub, priv), rs'))"
  shows "\<exists>p q e d. generate_keypair_steps bits rs = Some (Inr ((p, q, e, d), rs')) \<and>
           pub = (p * q, e) \<and> priv = (p * q, d) \<and>
           gcd_loop e ((p - 1) * (q - 1)) = 1 \<and> gcd e ((p - 1) * (q - 1)) = 1 \<and>
           1 < e \<and> e < (p - 1) * (q - 1)"
proof -
  from assms obtain p q e d where
    s: "generate_keypair_steps bits rs = Some (Inr ((p, q, e, d), rs'))" and
    k: "pub = (p * q, e)" "priv = (p * q, d)"
    by (auto simp: generate_keypair_steps_iff)
  note r = generate_keypair_steps_result [OF s]
  from r(4,5) have "0 \<le> e" "0 \<le> (p - 1) * (q - 1)" by simp_all
  then have "gcd e ((p - 1) * (q - 1)) = gcd_loop e ((p - 1) * (q - 1))"
    by (simp add: gcd_loop_eq_gcd)
  with r(4,5,6) s k show ?thesis by auto
qed

theorem selected_exponent_coprime_witness:
  "generate_keypair 16
     [131, 0, 1, 2, 3, 4, 131, 0, 1, 2, 3, 4, 137, 0, 1, 2, 3, 4, 16, 0, 1]
   = Some (Inr (((17947, 3), (17947, 11787)), [])) \<and>
   (\<exists>p q e d. ((17947::int), (3::int)) = (p * q, e) \<and> ((17947::int), (11787::int)) = (p * q, d) \<and>
      gcd_loop e ((p - 1) * (q - 1)) = 1 \<and> 1 < e \<and> e < (p - 1) * (q - 1))"
  using selected_exponent_coprime [OF sample_keypair] sample_keypair by blast

text \<open>
  Claim C6: \<^verbatim>\<open>mod_inverse(a, m)\<close> is documented to return \<open>x\<close> with
  \<open>(a * x) % m == 1\<close>, and the claim asks for it whenever \<open>m > 1\<close> and
  \<open>gcd(a, m) = 1\<close>. At \<open>a = - 1\<close>, \<open>m = 3\<close> the inverse exists (it is 2), but the loop
  \<^verbatim>\<open>while a > 1\<close> is not entered and the function returns 1, for which
  \<open>- 1 * 1 mod 3 = 2\<close>: the code does not reduce a negative \<open>a\<close> modulo \<open>m\<close> first.
\<close>

theorem mod_inverse_negative_argument:
  "(1::int) < 3 \<and> gcd (- 1) (3::int) = 1 \<and> gcd_loop (- 1) 3 = 1 \<and>
   ((- 1) * 2) mod (3::int) = 1 \<and>
   mod_inverse (- 1) 3 = Inr 1 \<and> ((- 1) * 1) mod (3::int) = 2"
  by (simp add: mod_inverse_def mod_inverse_loop.simps gcd_loop.simps)

text \<open>
  On the arguments that key generation passes, the function does what it documents:
  every returned key pair satisfies \<open>e * d mod phi = 1\<close>; and for every \<open>a \<ge> 1\<close> and
  \<open>m > 1\<close> with \<open>gcd(a, m) = 1\<close>, \<^verbatim>\<open>mod_inverse(a, m)\<close> returns \<open>x\<close> in \<open>[0, m)\<close> with
  \<open>a * x mod m = 1\<close>, where \<open>x\<close> is the coefficient \<open>r\<close> left by the loop, with \<open>m\<close>
  added once when \<open>r\<close> is negative.
\<close>

theorem inverse_property:
  "(generate_keypair bits rs = Some (Inr ((pub, priv), rs')) \<longrightarrow>
      (\<exists>p q e d. generate_keypair_steps bits rs = Some (Inr ((p, q, e, d), rs')) \<and>
         pub = (p * q, e) \<and> priv = (p * q, d) \<and>
         0 \<le> d \<and> d < (p - 1) * (q - 1) \<and> (e * d) mod ((p - 1) * (q - 1)) = 1)) \<and>
   (1 \<le> a \<and> 1 < m \<and> gcd a m = 1 \<longrightarrow>
      (\<exists>r x. mod_inverse_loop a m 1 0 = Inr r \<and> x = (if r < 0 then r + m else r) \<and>
         mod_inverse a m = Inr x \<and> 0 \<le> x \<and> x < m \<and> (a * x) mod m = 1))"
proof (intro conjI impI)
  assume "generate_keypair bits rs = Some (Inr ((pub, priv), rs'))"
  then obtain p q e d where
    s: "generate_keypair_steps bits rs = Some (Inr ((p, q, e, d), rs'))" and
    k: "pub = (p * q, e)" "priv = (p * q, d)"
    by (auto simp: generate_keypair_steps_iff)
  note r = generate_keypair_steps_result [OF s]
  from r(4,5) have e: "1 \<le> e" and phi: "1 < (p - 1) * (q - 1)" by simp_all
  then have "gcd e ((p - 1) * (q - 1)) = 1"
    using r(6) by (simp add: gcd_loop_eq_gcd)
  from mod_inverse_correct [OF e phi this] r(7)
  have "0 \<le> d \<and> d < (p - 1) * (q - 1) \<and> (e * d) mod ((p - 1) * (q - 1)) = 1"
    by auto
  with s k show "\<exists>p q e d. generate_keypair_steps bits rs = Some (Inr ((p, q, e, d), rs')) \<and>
         pub = (p * q, e) \<and> priv = (p * q, d) \<and>
         0 \<le> d \<and> d < (p - 1) * (q - 1) \<and> (e * d) mod ((p - 1) * (q - 1)) = 1"
    by blast
next
  assume "1 \<le> a \<and> 1 < m \<and> gcd a m = 1"
  then have "1 \<le> a" and "1 < m" and "gcd a m = 1" by simp_all
  then show "\<exists>r x. mod_inverse_loop a m 1 0 = Inr r \<and> x = (if r < 0 then r + m else r) \<and>
         mod_inverse a m = Inr x \<and> 0 \<le> x \<and> x < m \<and> (a * x) mod m = 1"
    by (rule mod_inverse_correct)
qed

theorem inverse_property_witness:
  "generate_keypair 16
     [131, 0, 1, 2, 3, 4, 131, 0, 1, 2, 3, 4, 137, 0, 1, 2, 3, 4, 16, 0, 1]
   = Some (Inr (((17947, 3), (17947, 11787)), [])) \<and>
   (3 * 11787) mod ((131 - 1) * (137 - 1)) = (1::int) \<and>
   (1::int) \<le> 17 \<and> (1::int) < 3120 \<and> gcd 17 (3120::int) = 1 \<and>
   mod_inverse_loop 17 3120 1 0 = Inr (- 367) \<and> mod_inverse 17 3120 = Inr 2753 \<and>
   (17 * 2753) mod 3120 = (1::int)"
proof -
  have "gcd_loop 17 3120 = 1" by (simp add: gcd_loop.simps)
  then have g: "gcd 17 (3120::int) = 1" by (simp add: gcd_loop_eq_gcd)
  have l: "mod_inverse_loop 17 3120 1 0 = Inr (- 367)"
    by (simp add: mod_inverse_loop.simps)
  have "\<exists>r x. mod_inverse_loop 17 3120 1 0 = Inr r \<and> x = (if r < 0 then r + 3120 else r) \<and>
     mod_inverse 17 3120 = Inr x \<and> 0 \<le> x \<and> x < 3120 \<and> (17 * x) mod 3120 = 1"
    using inverse_property [of 16 "[]" "(0, 0)" "(0, 0)" "[]" 17 3120] g by simp
  with l have "mod_inverse 17 3120 = Inr 2753" by auto
  with l g sample_keypair show ?thesis by simp
qed

section \<open>Fermat's little theorem\<close>

lemma prime_nat_dvd_cases:
  assumes "prime_nat p" and "m dvd p"
  shows "m = 1 \<or> m = p"
proof -
  from assms have "0 < p" by (simp add: prime_nat_def)
  with assms(2) have "m \<le> p" and "m \<noteq> 0" by (auto dest: dvd_imp_le)
  with assms show ?thesis
    by (cases "m = 1"; cases "m = p") (auto simp: prime_nat_def)
qed

lemma prime_nat_coprime:
  assumes "prime_nat p" and "\<not> p dvd a"
  shows "coprime p a"
proof (rule coprimeI)
  fix c assume "c dvd p" and "c dvd a"
  with prime_nat_dvd_cases [OF assms(1)] assms(2) show "is_unit c" by auto
qed

lemma prime_nat_dvd_mult:
  assumes "prime_nat p" and "p dvd a * b"
  shows "p dvd a \<or> p dvd b"
proof (cases "p dvd a")
  case True
  then show ?thesis by simp
next
  case False
  with assms(1) have "coprime p a" by (rule prime_nat_coprime)
  with assms(2) show ?thesis by (simp add: coprime_dvd_mult_right_iff)
qed

lemma prime_nat_dvd_binomial:
  assumes "prime_nat p" and "0 < k" and "k < p"
  shows "p dvd (p choose k)"
proof -
  have "k * (p choose k) = p * ((p - 1) choose (k - 1))"
    using assms(2) by (rule times_binomial_minus1_eq)
  then have "p dvd k * (p choose k)" by simp
  moreover have "\<not> p dvd k" using assms(2,3) by (auto dest: dvd_imp_le)
  ultimately show ?thesis using prime_nat_dvd_mult [OF assms(1)] by blast
qed

lemma fermat_add_one:
  assumes "prime_nat p"
  shows "(a + 1) ^ p mod p = (a ^ p + 1) mod p"
proof -
  from assms have p: "0 < p" by (simp add: prime_nat_def)
  have split: "{..p} = insert 0 (insert p {1..<p})" using p by auto
  have "(a + 1) ^ p = (\<Sum>k\<le>p. (p choose k) * a ^ k)"
    using binomial_ring [of a 1 p] by simp
  also have "\<dots> = 1 + (a ^ p + (\<Sum>k\<in>{1..<p}. (p choose k) * a ^ k))"
    using p by (simp add: split)
  finally have e: "(a + 1) ^ p = (a ^ p + 1) + (\<Sum>k\<in>{1..<p}. (p choose k) * a ^ k)"
    by simp
  have "p dvd (\<Sum>k\<in>{1..<p}. (p choose k) * a ^ k)"
    by (rule dvd_sum) (simp add: prime_nat_dvd_binomial [OF assms])
  then obtain c where "(\<Sum>k\<in>{1..<p}. (p choose k) * a ^ k) = p * c" by (elim dvdE)
  then show ?thesis unfolding e by (simp only: mod_mult_self2)
qed

lemma fermat_little:
  assumes "prime_nat p"
  shows "a ^ p mod p = a mod p"
proof (induction a)
  case 0
  from assms have "p \<noteq> 0" by (simp add: prime_nat_def)
  then show ?case by (simp add: power_0_left)
next
  case (Suc a)
  have "(a + 1) ^ p mod p = (a ^ p + 1) mod p" by (rule fermat_add_one [OF assms])
  also have "\<dots> = (a ^ p mod p + 1) mod p" by (rule mod_add_left_eq [symmetric])
  also have "\<dots> = (a mod p + 1) mod p" by (simp only: Suc.IH)
  also have "\<dots> = (a + 1) mod p" by (rule mod_add_left_eq)
  finally show ?case by simp
qed

lemma fermat_power:
  assumes "prime_nat p"
  shows "a ^ (1 + j * (p - 1)) mod p = a mod p"
proof (induction j)
  case 0
  show ?case by simp
next
  case (Suc j)
  from assms have "0 < p" by (simp add: prime_nat_def)
  then have eq: "1 + Suc j * (p - 1) = j * (p - 1) + p" by simp
  have "a ^ (1 + Suc j * (p - 1)) mod p = (a ^ (j * (p - 1)) * a ^ p) mod p"
    by (simp only: eq power_add)
  also have "\<dots> = (a ^ (j * (p - 1)) * (a ^ p mod p)) mod p"
    by (simp add: mod_mult_right_eq)
  also have "\<dots> = (a ^ (j * (p - 1)) * a) mod p"
    by (simp add: fermat_little [OF assms] mod_mult_right_eq)
  also have "\<dots> = a ^ (1 + j * (p - 1)) mod p"
    by (simp add: mult.commute)
  finally show ?case using Suc.IH by simp
qed

section \<open>Correctness of RSA on one symbol\<close>

lemma prime_nat_distinct_coprime:
  assumes "prime_nat p" and "prime_nat q" and "p \<noteq> q"
  shows "coprime p q"
proof (rule prime_nat_coprime [OF assms(1)])
  show "\<not> p dvd q"
  proof
    assume "p dvd q"
    with prime_nat_dvd_cases [OF assms(2)] have "p = 1 \<or> p = q" by blast
    with assms(1,3) show False by (simp add: prime_nat_def)
  qed
qed

lemma rsa_core_nat:
  assumes "prime_nat p" and "prime_nat q" and "p \<noteq> q"
    and "(e * d) mod ((p - 1) * (q - 1)) = 1"
  shows "m ^ (e * d) mod (p * q) = m mod (p * q)"
proof -
  define k where "k = (e * d) div ((p - 1) * (q - 1))"
  have ed: "e * d = 1 + k * ((p - 1) * (q - 1))"
    by (metis add.commute assms(4) div_mult_mod_eq k_def)
  have "e * d = 1 + (k * (q - 1)) * (p - 1)" unfolding ed by (simp add: mult_ac)
  then have mp: "m ^ (e * d) mod p = m mod p"
    using fermat_power [OF assms(1), of m "k * (q - 1)"] by simp
  have "e * d = 1 + (k * (p - 1)) * (q - 1)" unfolding ed by (simp add: mult_ac)
  then have mq: "m ^ (e * d) mod q = m mod q"
    using fermat_power [OF assms(2), of m "k * (p - 1)"] by simp
  have le: "m \<le> m ^ (e * d)"
  proof (cases "m = 0")
    case True
    then show ?thesis by simp
  next
    case False
    then show ?thesis using ed by (intro self_le_power) simp_all
  qed
  from mp le have "p dvd m ^ (e * d) - m" by (simp add: mod_eq_dvd_iff_nat)
  moreover from mq le have "q dvd m ^ (e * d) - m" by (simp add: mod_eq_dvd_iff_nat)
  ultimately have "p * q dvd m ^ (e * d) - m"
    using prime_nat_distinct_coprime [OF assms(1-3)] by (simp add: divides_mult)
  with le show ?thesis by (simp add: mod_eq_dvd_iff_nat)
qed

lemma rsa_core_int:
  assumes "prime_nat (nat p)" and "prime_nat (nat q)" and "p \<noteq> q"
    and "0 \<le> e" and "0 \<le> d" and "(e * d) mod ((p - 1) * (q - 1)) = 1"
    and "0 \<le> c" and "c < p * q"
  shows "pow_mod (pow_mod c e (p * q)) d (p * q) = c"
proof -
  from assms(1,2) have p: "1 < p" and q: "1 < q" by (simp_all add: prime_nat_def)
  define P Q E D M where "P = nat p" and "Q = nat q" and "E = nat e" and "D = nat d"
    and "M = nat c"
  have ip: "p = int P" and iq: "q = int Q" and ie: "e = int E" and id: "d = int D"
    and ic: "c = int M"
    using p q assms(4,5,7) by (simp_all add: P_def Q_def E_def D_def M_def)
  have PQ: "P \<noteq> Q" using assms(3) ip iq by simp
  have "int ((E * D) mod ((P - 1) * (Q - 1))) = (e * d) mod ((p - 1) * (q - 1))"
    using p q by (simp add: ip iq ie id of_nat_mod of_nat_diff)
  with assms(6) have ED: "(E * D) mod ((P - 1) * (Q - 1)) = 1" by simp
  have "M < P * Q"
    using assms(8) by (simp add: ip iq ic flip: of_nat_mult)
  then have "M ^ (E * D) mod (P * Q) = M"
    using rsa_core_nat [OF assms(1,2)[folded P_def Q_def] PQ ED, of M] by simp
  then have "int (M ^ (E * D) mod (P * Q)) = int M" by simp
  then have "c ^ (E * D) mod (p * q) = c"
    by (simp add: ip iq ic of_nat_mod)
  moreover have "pow_mod (pow_mod c e (p * q)) d (p * q) = c ^ (E * D) mod (p * q)"
    by (simp add: pow_mod_def E_def D_def power_mod power_mult)
  ultimately show ?thesis by simp
qed

section \<open>Round trip\<close>

lemma encrypt_loop_accepts:
  assumes "0 \<le> e" and "\<forall>c\<in>set msg. 0 \<le> c \<and> ord c < n"
  shows "encrypt_loop n e msg acc = Inr (acc @ map (\<lambda>c. pow_mod c e n) msg)"
  using assms(2)
proof (induction msg arbitrary: acc)
  case Nil
  show ?case by simp
next
  case (Cons c msg)
  then have c: "0 \<le> c" "c < n" by (simp_all add: ord_def)
  then have "py_pow c e n = Inr (pow_mod c e n)"
    using assms(1) by (simp add: py_pow_nonneg)
  with Cons c show ?case by (simp add: ord_def)
qed

text \<open>
  Claim C1: for a key pair returned by \<^verbatim>\<open>generate_keypair\<close> whose \<open>p\<close> and \<open>q\<close> are
  primes (they are distinct by construction), and a message all of whose symbols have a
  code below \<open>n = p * q\<close>, \<^verbatim>\<open>encrypt\<close> returns a ciphertext that \<^verbatim>\<open>decrypt\<close> turns
  back into the message.
\<close>

theorem round_trip:
  assumes "generate_keypair bits rs = Some (Inr ((pub, priv), rs'))"
    and "generate_keypair_steps bits rs = Some (Inr ((p, q, e, d), rs'))"
    and "prime_nat (nat p)" and "prime_nat (nat q)"
    and "valid_str message" and "\<forall>c\<in>set message. ord c < p * q"
  shows "pub = (p * q, e) \<and> priv = (p * q, d) \<and> p \<noteq> q \<and>
         (\<exists>ciphertext. encrypt pub message = Inr ciphertext \<and>
            decrypt priv ciphertext = Inr message)"
proof -
  from assms(1,2) have k: "pub = (p * q, e)" "priv = (p * q, d)"
    by (auto simp: generate_keypair_steps_iff)
  note r = generate_keypair_steps_result [OF assms(2)]
  from assms(3,4) have pq: "1 < p" "1 < q" by (simp_all add: prime_nat_def)
  from r(4,5) have e: "1 \<le> e" and phi: "1 < (p - 1) * (q - 1)" by simp_all
  then have "gcd e ((p - 1) * (q - 1)) = 1"
    using r(6) by (simp add: gcd_loop_eq_gcd)
  from mod_inverse_correct [OF e phi this] r(7)
  have d: "0 \<le> d" and ed: "(e * d) mod ((p - 1) * (q - 1)) = 1"
    by auto
  from pq have n: "0 < p * q" by simp
  from assms(5) have valid: "\<forall>c\<in>set message. 0 \<le> c \<and> c < 1114112"
    by (simp add: valid_str_def list_all_iff)
  with assms(6) have "\<forall>c\<in>set message. 0 \<le> c \<and> ord c < p * q" by simp
  with e have enc: "encrypt pub message = Inr (map (\<lambda>c. pow_mod c e (p * q)) message)"
    using encrypt_loop_accepts [of e message "p * q" "[]"] by (simp add: k)
  have inv: "pow_mod (pow_mod c e (p * q)) d (p * q) = c" if "c \<in> set message" for c
  proof -
    from that valid assms(6) have "0 \<le> c" and "c < p * q" by (simp_all add: ord_def)
    with e d show ?thesis
      by (intro rsa_core_int [OF assms(3,4) r(1) _ _ ed]) simp_all
  qed
  then have m: "map (\<lambda>x. pow_mod x d (p * q)) (map (\<lambda>c. pow_mod c e (p * q)) message) = message"
    by (simp add: map_idI)
  have "\<forall>x\<in>set (map (\<lambda>c. pow_mod c e (p * q)) message). pow_mod x d (p * q) < 1114112"
    using inv valid by simp
  then have "decrypt priv (map (\<lambda>c. pow_mod c e (p * q)) message) = Inr message"
    using decrypt_loop_accepts [OF n d, of "map (\<lambda>c. pow_mod c e (p * q)) message" "[]"] m
    by (simp add: k)
  with enc k r(1) show ?thesis by blast
qed

lemma prime_131: "prime_nat 131" by code_simp
lemma prime_137: "prime_nat 137" by code_simp

theorem round_trip_witness:
  "generate_keypair 16
     [131, 0, 1, 2, 3, 4, 131, 0, 1, 2, 3, 4, 137, 0, 1, 2, 3, 4, 16, 0, 1]
   = Some (Inr (((17947, 3), (17947, 11787)), [])) \<and>
   valid_str [72, 105, 33] \<and> ord 72 < 131 * 137 \<and> ord 105 < 131 * 137 \<and>
   ord 33 < 131 * 137 \<and>
   (\<exists>ciphertext. encrypt (17947, 3) [72, 105, 33] = Inr ciphertext \<and>
      decrypt (17947, 11787) ciphertext = Inr [72, 105, 33])"
proof -
  have p: "prime_nat (nat 131)" and q: "prime_nat (nat 137)"
    using prime_131 prime_137 by simp_all
  have v: "valid_str [72, 105, 33]" by (simp add: valid_str_def)
  have b: "\<forall>c\<in>set [72, 105, 33]. ord c < 131 * 137" by (simp add: ord_def)
  from round_trip [OF sample_keypair sample_keypair_steps p q v b] sample_keypair v b
  show ?thesis by auto
qed

section \<open>The Miller-Rabin test accepts every prime\<close>

lemma prime_int_dvd_mult:
  assumes "prime_nat p" and "int p dvd a * b"
  shows "int p dvd a \<or> int p dvd b"
proof -
  from assms(2) have "p dvd nat \<bar>a * b\<bar>" by (simp only: dvd_nat_abs_iff)
  then have "p dvd nat \<bar>a\<bar> * nat \<bar>b\<bar>" by (simp add: nat_abs_mult_distrib)
  with prime_nat_dvd_mult [OF assms(1)] have "p dvd nat \<bar>a\<bar> \<or> p dvd nat \<bar>b\<bar>" by blast
  then show ?thesis by (simp only: dvd_nat_abs_iff)
qed

lemma sqrt_one_mod_prime:
  assumes "prime_nat p" and "(y * y) mod int p = 1"
  shows "y mod int p = 1 \<or> y mod int p = int p - 1"
proof -
  from assms(1) have p: "1 < int p" by (simp add: prime_nat_def)
  then have "(y * y) mod int p = 1 mod int p" using assms(2) by simp
  then have "int p dvd y * y - 1" by (simp only: mod_eq_dvd_iff)
  moreover have "y * y - 1 = (y - 1) * (y + 1)" by (simp add: algebra_simps)
  ultimately have "int p dvd (y - 1) * (y + 1)" by simp
  with prime_int_dvd_mult [OF assms(1)] have "int p dvd y - 1 \<or> int p dvd y + 1" by blast
  then show ?thesis
  proof
    assume "int p dvd y - 1"
    then have "y mod int p = 1 mod int p" by (simp only: mod_eq_dvd_iff)
    with p show ?thesis by simp
  next
    assume "int p dvd y + 1"
    then have "int p dvd y - (- 1)" by simp
    then have "y mod int p = (- 1) mod int p" by (simp only: mod_eq_dvd_iff)
    with p show ?thesis by (simp add: zmod_minus1)
  qed
qed

lemma fermat_nat:
  assumes "prime_nat p" and "0 < m" and "m < p"
  shows "m ^ (p - 1) mod p = 1"
proof -
  from assms(1) have p: "1 < p" by (simp add: prime_nat_def)
  have ndvd: "\<not> p dvd m" using assms(2,3) by (auto dest: dvd_imp_le)
  have one: "1 \<le> m ^ (p - 1)" using assms(2) by simp
  have mp: "m ^ p = m * m ^ (p - 1)" using p by (cases p) simp_all
  have "m \<le> m ^ p" using assms(2) p by (intro self_le_power) simp_all
  with fermat_little [OF assms(1), of m] have "p dvd m ^ p - m"
    by (simp add: mod_eq_dvd_iff_nat)
  moreover have "m ^ p - m = m * (m ^ (p - 1) - 1)"
    by (simp add: mp diff_mult_distrib2)
  ultimately have "p dvd m * (m ^ (p - 1) - 1)" by simp
  with prime_nat_dvd_mult [OF assms(1)] ndvd have "p dvd m ^ (p - 1) - 1" by blast
  with mod_eq_dvd_iff_nat [OF one, of p] have "m ^ (p - 1) mod p = 1 mod p" by blast
  with p show ?thesis by simp
qed

lemma fermat_int:
  assumes "prime_nat p" and "0 < a" and "a < int p"
  shows "a ^ (p - 1) mod int p = 1"
proof -
  define m where "m = nat a"
  have a: "a = int m" using assms(2) by (simp add: m_def)
  have "m ^ (p - 1) mod p = 1"
    using assms(2,3) by (intro fermat_nat [OF assms(1)]) (simp_all add: a)
  then have "int (m ^ (p - 1) mod p) = 1" by simp
  then show ?thesis by (simp add: a of_nat_mod)
qed

lemma strong_sequence:
  assumes "prime_nat p"
  shows "x ^ (2 ^ j) mod int p = 1 \<Longrightarrow>
         x mod int p = 1 \<or> (\<exists>i<j. x ^ (2 ^ i) mod int p = int p - 1)"
proof (induction j)
  case 0
  then show ?case by simp
next
  case (Suc j)
  have "x ^ (2 ^ Suc j) = x ^ (2 ^ j) * x ^ (2 ^ j)"
    by (simp add: power_add [symmetric] mult_2)
  with Suc.prems have "(x ^ (2 ^ j) * x ^ (2 ^ j)) mod int p = 1" by simp
  from sqrt_one_mod_prime [OF assms this]
  show ?case
  proof
    assume "x ^ (2 ^ j) mod int p = 1"
    from Suc.IH [OF this] show ?thesis by (auto intro: less_SucI)
  next
    assume "x ^ (2 ^ j) mod int p = int p - 1"
    then show ?thesis by blast
  qed
qed

lemma squarings_reaches:
  "\<exists>i. 1 \<le> i \<and> i \<le> c \<and> x ^ (2 ^ i) mod n = n - 1 \<Longrightarrow> squarings n x c"
proof (induction c arbitrary: x)
  case 0
  then show ?case by simp
next
  case (Suc c)
  then obtain i where i: "1 \<le> i" "i \<le> Suc c" "x ^ (2 ^ i) mod n = n - 1" by blast
  show ?case
  proof (cases "pow_mod x 2 n = n - 1")
    case True
    then show ?thesis by simp
  next
    case False
    with i(3) have "i \<noteq> 1" by (auto simp: pow_mod_def)
    with i(1) obtain i' where i': "i = Suc i'" "1 \<le> i'" by (cases i) auto
    have "(pow_mod x 2 n) ^ (2 ^ i') mod n = (x ^ 2) ^ (2 ^ i') mod n"
      by (simp add: pow_mod_def power_mod)
    also have "\<dots> = x ^ (2 ^ i) mod n"
      by (simp add: i' power_mult [symmetric])
    finally have "(pow_mod x 2 n) ^ (2 ^ i') mod n = n - 1" using i(3) by simp
    with i' i(2) have "\<exists>j. 1 \<le> j \<and> j \<le> c \<and> (pow_mod x 2 n) ^ (2 ^ j) mod n = n - 1"
      by auto
    from Suc.IH [OF this] False show ?thesis by simp
  qed
qed

lemma factor_twos_result:
  "0 < d \<Longrightarrow> factor_twos s d = (s', d') \<Longrightarrow>
   s \<le> s' \<and> d = 2 ^ nat (s' - s) * d' \<and> 0 < d'"
proof (induction s d rule: factor_twos.induct)
  case (1 s d)
  show ?case
  proof (cases "d \<noteq> 0 \<and> d mod 2 = 0")
    case False
    with "1.prems" show ?thesis by (subst (asm) factor_twos.simps) simp
  next
    case True
    with "1.prems" have f: "factor_twos (s + 1) (d div 2) = (s', d')"
      by (subst (asm) factor_twos.simps) simp
    from True "1.prems" have pos: "0 < d div 2" by presburger
    from "1.IH" [OF True pos f]
    have ih: "s + 1 \<le> s'" "d div 2 = 2 ^ nat (s' - (s + 1)) * d'" "0 < d'" by simp_all
    from ih(1) have "nat (s' - s) = Suc (nat (s' - (s + 1)))" by simp
    moreover from True have "d = 2 * (d div 2)" by presburger
    ultimately have "d = 2 ^ nat (s' - s) * d'" using ih(2) by simp
    with ih show ?thesis by simp
  qed
qed

lemma witness_passes:
  assumes "prime_nat (nat n)" and "0 \<le> s" and "0 < d" and "n - 1 = 2 ^ nat s * d"
    and "2 \<le> a" and "a \<le> n - 2"
  shows "pow_mod a d n = 1 \<or> pow_mod a d n = n - 1 \<or>
         squarings n (pow_mod a d n) (nat (s - 1))"
proof -
  define p where "p = nat n"
  from assms(5,6) have n: "n = int p" by (simp add: p_def)
  have pr: "prime_nat p" using assms(1) by (simp add: p_def)
  define x where "x = a ^ nat d"
  have "p - 1 = nat (n - 1)" by (simp add: p_def)
  also have "\<dots> = 2 ^ nat s * nat d"
    using assms(3) by (simp add: assms(4) nat_mult_distrib nat_power_eq)
  finally have "a ^ (p - 1) = x ^ (2 ^ nat s)"
    by (simp add: x_def power_mult [symmetric] mult.commute)
  moreover have "a ^ (p - 1) mod int p = 1"
    using assms(5,6) by (intro fermat_int [OF pr]) (simp_all add: n)
  ultimately have "x ^ (2 ^ nat s) mod int p = 1" by simp
  from strong_sequence [OF pr this]
  have "x mod n = 1 \<or> (\<exists>i<nat s. x ^ (2 ^ i) mod n = n - 1)" by (simp add: n)
  then show ?thesis
  proof
    assume "x mod n = 1"
    then show ?thesis by (simp add: pow_mod_def x_def)
  next
    assume "\<exists>i<nat s. x ^ (2 ^ i) mod n = n - 1"
    then obtain i where i: "i < nat s" "x ^ (2 ^ i) mod n = n - 1" by blast
    show ?thesis
    proof (cases "i = 0")
      case True
      with i(2) show ?thesis by (simp add: pow_mod_def x_def)
    next
      case False
      have "(pow_mod a d n) ^ (2 ^ i) mod n = x ^ (2 ^ i) mod n"
        by (simp add: pow_mod_def x_def power_mod)
      with i False have "\<exists>j. 1 \<le> j \<and> j \<le> nat (s - 1) \<and>
          (pow_mod a d n) ^ (2 ^ j) mod n = n - 1"
        by (intro exI [of _ i]) auto
      then have "squarings n (pow_mod a d n) (nat (s - 1))" by (rule squarings_reaches)
      then show ?thesis by simp
    qed
  qed
qed

lemma witness_rounds_prime:
  assumes "prime_nat (nat n)" and "5 \<le> n" and "0 \<le> s" and "0 < d"
    and "n - 1 = 2 ^ nat s * d"
  shows "k \<le> length rs \<Longrightarrow> witness_rounds n s d k rs = Some (Inr (True, drop k rs))"
proof (induction k arbitrary: rs)
  case 0
  show ?case by simp
next
  case (Suc k)
  then obtain r rs1 where rs: "rs = r # rs1" by (cases rs) auto
  define a where "a = 2 + int r mod (n - 3)"
  have "0 \<le> int r mod (n - 3)" and "int r mod (n - 3) < n - 3"
    using assms(2) by simp_all
  then have a: "2 \<le> a" "a \<le> n - 2" by (simp_all add: a_def)
  have ri: "randint 2 (n - 2) (r # rs1) = Some (Inr (a, rs1))"
    using assms(2) by (simp add: randint_def a_def algebra_simps)
  from Suc.prems have "k \<le> length rs1" by (simp add: rs)
  from Suc.IH [OF this] witness_passes [OF assms(1,3,4,5) a]
  show ?case by (auto simp: ri rs Let_def)
qed

lemma is_prime_accepts_prime:
  assumes "prime_nat (nat n)" and "nat k \<le> length rs"
  shows "is_prime n k rs = Some (Inr (True, if n \<le> 3 then rs else drop (nat k) rs))"
proof -
  from assms(1) have n1: "1 < n" and div: "\<forall>m\<in>{2..<nat n}. \<not> m dvd nat n"
    by (simp_all add: prime_nat_def)
  show ?thesis
  proof (cases "n \<le> 3")
    case True
    with n1 show ?thesis by (simp add: is_prime_def)
  next
    case False
    have odd: "n mod 2 \<noteq> 0"
    proof
      assume "n mod 2 = 0"
      then have "even n" by presburger
      then have "2 dvd nat n" using n1 by (simp add: even_nat_iff)
      moreover have "2 \<in> {2..<nat n}" using False by simp
      ultimately show False using div by blast
    qed
    then have n5: "5 \<le> n" using False by presburger
    obtain s d where f: "factor_twos 0 (n - 1) = (s, d)" by (cases "factor_twos 0 (n - 1)")
    from n5 have "0 < n - 1" by simp
    from factor_twos_result [OF this f]
    have sd: "0 \<le> s" "n - 1 = 2 ^ nat s * d" "0 < d" by simp_all
    from n5 odd have "is_prime n k rs = witness_rounds n s d (nat k) rs"
      by (simp add: is_prime_def f)
    also have "\<dots> = Some (Inr (True, drop (nat k) rs))"
      using assms(2) by (rule witness_rounds_prime [OF assms(1) n5 sd(1) sd(3) sd(2)])
    finally show ?thesis using False by simp
  qed
qed

section \<open>Small primes and composites\<close>

lemma prime_nat_by_trial_division:
  assumes "1 < p" and "\<forall>m\<in>{2..b}. \<not> m dvd p" and "p < (b + 1) * (b + 1)"
  shows "prime_nat p"
  unfolding prime_nat_def
proof (intro conjI ballI notI)
  show "1 < p" by (rule assms(1))
next
  fix m assume m: "m \<in> {2..<p}" and "m dvd p"
  then obtain k where k: "p = m * k" by (elim dvdE)
  with m assms(1) have k2: "2 \<le> k" by (cases "k = 0"; cases "k = 1") auto
  show False
  proof (cases "m \<le> b")
    case True
    with m \<open>m dvd p\<close> assms(2) show False by auto
  next
    case False
    have "k \<le> b"
    proof (rule ccontr)
      assume "\<not> k \<le> b"
      with False have "(b + 1) * (b + 1) \<le> m * k" by (intro mult_mono) simp_all
      with k assms(3) show False by simp
    qed
    moreover have "k dvd p" using k by simp
    ultimately show False using k2 assms(2) by auto
  qed
qed

lemma small_primes:
  "prime_nat 5" "prime_nat 7" "prime_nat 11" "prime_nat 97" "prime_nat 7919"
proof -
  show "prime_nat 5"
    by (rule prime_nat_by_trial_division [of _ 2])
       (simp_all add: atLeastAtMost_upt upt_rec dvd_eq_mod_eq_0)
  show "prime_nat 7"
    by (rule prime_nat_by_trial_division [of _ 2])
       (simp_all add: atLeastAtMost_upt upt_rec dvd_eq_mod_eq_0)
  show "prime_nat 11"
    by (rule prime_nat_by_trial_division [of _ 3])
       (simp_all add: atLeastAtMost_upt upt_rec dvd_eq_mod_eq_0)
  show "prime_nat 97"
    by (rule prime_nat_by_trial_division [of _ 9])
       (simp_all add: atLeastAtMost_upt upt_rec dvd_eq_mod_eq_0)
  show "prime_nat 7919"
    by (rule prime_nat_by_trial_division [of _ 88])
       (simp_all add: atLeastAtMost_upt upt_rec dvd_eq_mod_eq_0)
qed

lemma nine_has_no_liar:
  assumes "2 \<le> a" and "a \<le> 7"
  shows "pow_mod a 1 9 \<noteq> 1 \<and> pow_mod a 1 9 \<noteq> 9 - 1 \<and> \<not> squarings 9 (pow_mod a 1 9) (nat (3 - 1))"
proof -
  from assms have "a = 2 \<or> a = 3 \<or> a = 4 \<or> a = 5 \<or> a = 6 \<or> a = 7" by arith
  then show ?thesis
    by (elim disjE) (simp_all add: pow_mod_def numeral_2_eq_2)
qed

lemma witness_rounds_9:
  "witness_rounds 9 3 1 (Suc k) (r # rs) = Some (Inr (False, rs))"
proof -
  define a where "a = 2 + int r mod 6"
  have "0 \<le> int r mod 6" and "int r mod 6 < 6" by simp_all
  then have a: "2 \<le> a" "a \<le> 7" by (simp_all add: a_def)
  have ri: "randint 2 7 (r # rs) = Some (Inr (a, rs))"
    by (simp add: randint_def a_def)
  show ?thesis
    using nine_has_no_liar [OF a] by (simp add: ri Let_def)
qed

lemma is_prime_9:
  "is_prime 9 5 (r # rs) = Some (Inr (False, rs))"
proof -
  have f: "factor_twos 0 8 = (3, 1)" by (simp add: factor_twos.simps)
  have "is_prime 9 5 (r # rs) = witness_rounds 9 3 1 (nat 5) (r # rs)"
    by (simp add: is_prime_def f)
  also have "nat 5 = Suc 4" by simp
  finally show ?thesis by (simp only: witness_rounds_9)
qed

text \<open>
  Claim C5: with the default 5 rounds and any draws of the witnesses (a tape of at least
  5 entries), \<^verbatim>\<open>is_prime\<close> returns \<open>True\<close> for 2, 3, 5, 7, 11, 97 and 7919 and
  \<open>False\<close> for 4, 9, 100, 7920, 1 and 0. The primes from 5 on use all 5 draws, 9 is
  rejected by its first witness, and the other numbers are decided without a draw.
\<close>

theorem is_prime_small_numbers:
  assumes "5 \<le> length rs"
  shows "is_prime 2 5 rs = Some (Inr (True, rs)) \<and>
         is_prime 3 5 rs = Some (Inr (True, rs)) \<and>
         is_prime 5 5 rs = Some (Inr (True, drop 5 rs)) \<and>
         is_prime 7 5 rs = Some (Inr (True, drop 5 rs)) \<and>
         is_prime 11 5 rs = Some (Inr (True, drop 5 rs)) \<and>
         is_prime 97 5 rs = Some (Inr (True, drop 5 rs)) \<and>
         is_prime 7919 5 rs = Some (Inr (True, drop 5 rs)) \<and>
         is_prime 4 5 rs = Some (Inr (False, rs)) \<and>
         is_prime 9 5 rs = Some (Inr (False, tl rs)) \<and>
         is_prime 100 5 rs = Some (Inr (False, rs)) \<and>
         is_prime 7920 5 rs = Some (Inr (False, rs)) \<and>
         is_prime 1 5 rs = Some (Inr (False, rs)) \<and>
         is_prime 0 5 rs = Some (Inr (False, rs))"
proof -
  from assms have k: "nat 5 \<le> length rs" by simp
  from assms obtain r rs1 where rs: "rs = r # rs1" by (cases rs) auto
  have "is_prime 5 5 rs = Some (Inr (True, drop 5 rs))"
    using is_prime_accepts_prime [OF _ k, of 5] small_primes by simp
  moreover have "is_prime 7 5 rs = Some (Inr (True, drop 5 rs))"
    using is_prime_accepts_prime [OF _ k, of 7] small_primes by simp
  moreover have "is_prime 11 5 rs = Some (Inr (True, drop 5 rs))"
    using is_prime_accepts_prime [OF _ k, of 11] small_primes by simp
  moreover have "is_prime 97 5 rs = Some (Inr (True, drop 5 rs))"
    using is_prime_accepts_prime [OF _ k, of 97] small_primes by simp
  moreover have "is_prime 7919 5 rs = Some (Inr (True, drop 5 rs))"
    using is_prime_accepts_prime [OF _ k, of 7919] small_primes by simp
  moreover have "is_prime 9 5 rs = Some (Inr (False, tl rs))"
    unfolding rs by (simp only: is_prime_9 list.sel)
  moreover have "is_prime 2 5 rs = Some (Inr (True, rs))"
    and "is_prime 3 5 rs = Some (Inr (True, rs))"
    and "is_prime 4 5 rs = Some (Inr (False, rs))"
    and "is_prime 100 5 rs = Some (Inr (False, rs))"
    and "is_prime 7920 5 rs = Some (Inr (False, rs))"
    and "is_prime 1 5 rs = Some (Inr (False, rs))"
    and "is_prime 0 5 rs = Some (Inr (False, rs))"
    by (simp_all add: is_prime_def)
  ultimately show ?thesis by blast
qed

theorem is_prime_small_numbers_witness:
  "5 \<le> length [0, 1, 2, 3, 4::nat] \<and>
   is_prime 7919 5 [0, 1, 2, 3, 4] = Some (Inr (True, [])) \<and>
   is_prime 97 5 [0, 1, 2, 3, 4] = Some (Inr (True, [])) \<and>
   is_prime 2 5 [0, 1, 2, 3, 4] = Some (Inr (True, [0, 1, 2, 3, 4])) \<and>
   is_prime 9 5 [0, 1, 2, 3, 4] = Some (Inr (False, [1, 2, 3, 4])) \<and>
   is_prime 7920 5 [0, 1, 2, 3, 4] = Some (Inr (False, [0, 1, 2, 3, 4]))"
  using is_prime_small_numbers [of "[0, 1, 2, 3, 4]"] by simp

end
